theory Spec2Isabelle
  imports Main "HOL-Library.Sublist" "HOL-Library.Monad_Syntax"
begin

section \<open>Text and indexing\<close>

text \<open>
  The script \<^verbatim>\<open>scripts/apply_conditional_testcases.py\<close> works on Python strings. A
  string is modelled as a \<^typ>\<open>string\<close>, one \<^typ>\<open>char\<close> per code point, which covers
  every text whose code points are below 256; a file is the list of its lines.

  Python raises \<^verbatim>\<open>IndexError\<close> when a list or a string is read at an index that is not
  below its length. The indices of the script are never negative, so a read is modelled
  by \<open>getitem\<close>, where \<open>None\<close> stands for the raised \<^verbatim>\<open>IndexError\<close>; every function below
  that reads by index returns an option, and \<open>None\<close> is the exception propagating.
\<close>

definition getitem :: "'a list \<Rightarrow> nat \<Rightarrow> 'a option" where
  "getitem xs j = (if j < length xs then Some (xs ! j) else None)"

definition dq :: char where
  "dq = CHR 0x22"

definition backslash :: char where
  "backslash = CHR 0x5C"

section \<open>The bracket scanner: \<^verbatim>\<open>find_testcase_end\<close>\<close>

record scan_state =
  bracket_depth :: int
  in_string :: bool
  in_verbatim_string :: bool
  escape_next :: bool

definition init_state :: scan_state where
  "init_state = \<lparr>bracket_depth = 0, in_string = False, in_verbatim_string = False,
     escape_next = False\<rparr>"

text \<open>
  One pass through the body of the \<^verbatim>\<open>while j < len(line)\<close> loop either returns from the
  function (\<open>Return\<close>, the \<^verbatim>\<open>return i\<close> of line 79) or goes on at a new column with a
  new state (\<open>Next\<close>).
\<close>

datatype step_result = Return | Next nat scan_state

text \<open>
  The condition of lines 42 and 58 that \<^verbatim>\<open>j + 1 < len(line)\<close> and \<^verbatim>\<open>line[j + 1]\<close> is a
  double quote: the read is only made when the bound holds, as \<^verbatim>\<open>and\<close> evaluates left
  to right.
\<close>

definition next_is_quote :: "string \<Rightarrow> nat \<Rightarrow> bool option" where
  "next_is_quote line j =
     (if j + 1 < length line then
        do { c \<leftarrow> getitem line (j + 1); Some (c = dq) }
      else Some False)"

text \<open>Lines 72 to 82: brackets are counted outside strings, then the column advances.\<close>

definition count_brackets :: "char \<Rightarrow> nat \<Rightarrow> scan_state \<Rightarrow> step_result" where
  "count_brackets char j st =
     (if \<not> in_string st \<and> \<not> in_verbatim_string st then
        if char = CHR ''['' then
          Next (j + 1) (st\<lparr>bracket_depth := bracket_depth st + 1, escape_next := False\<rparr>)
        else if char = CHR '']'' then
          if bracket_depth st - 1 = 0 then Return
          else Next (j + 1) (st\<lparr>bracket_depth := bracket_depth st - 1, escape_next := False\<rparr>)
        else Next (j + 1) (st\<lparr>escape_next := False\<rparr>)
      else Next (j + 1) (st\<lparr>escape_next := False\<rparr>))"

text \<open>Lines 39 to 82: the body of the inner loop at column \<open>j\<close>.\<close>

definition step :: "string \<Rightarrow> nat \<Rightarrow> scan_state \<Rightarrow> step_result option" where
  "step line j st =
     do {
       char \<leftarrow> getitem line j;
       at_quote \<leftarrow> (if char = CHR ''@'' then next_is_quote line j else Some False);
       if at_quote \<and> \<not> in_string st \<and> \<not> in_verbatim_string st then
         Some (Next (j + 2) (st\<lparr>in_verbatim_string := True\<rparr>))
       else if char = dq \<and> \<not> in_verbatim_string st then
         Some (Next (j + 1)
           (st\<lparr>in_string := (if \<not> escape_next st then \<not> in_string st else in_string st),
               escape_next := False\<rparr>))
       else if char = dq \<and> in_verbatim_string st then
         do {
           doubled \<leftarrow> next_is_quote line j;
           if doubled then Some (Next (j + 2) st)
           else Some (Next (j + 1) (st\<lparr>in_verbatim_string := False\<rparr>))
         }
       else if char = backslash \<and> in_string st \<and> \<not> in_verbatim_string st then
         Some (Next (j + 1) (st\<lparr>escape_next := True\<rparr>))
       else Some (count_brackets char j st)
     }"

text \<open>
  The inner loop over the columns of one line, from column \<open>j\<close>. \<open>Found\<close>: the function
  returned inside this line; \<open>Continue\<close>: the line ended, with the state to carry into
  the next line.
\<close>

datatype line_result = Found | Continue scan_state

lemma step_advances: "step line j st = Some (Next j' st') \<Longrightarrow> j < j'"
  by (auto simp: step_def count_brackets_def Let_def
      split: bind_splits if_splits)

function scan_line :: "string \<Rightarrow> nat \<Rightarrow> scan_state \<Rightarrow> line_result option" where
  "scan_line line j st =
     (if j < length line then
        (case step line j st of
           None \<Rightarrow> None
         | Some Return \<Rightarrow> Some Found
         | Some (Next j' st') \<Rightarrow> scan_line line j' st')
      else Some (Continue st))"
  by pat_completeness auto
termination
  by (relation "measure (\<lambda>(line, j, st). length line - j)")
     (auto dest: step_advances)

declare scan_line.simps [simp del]

text \<open>
  The outer loop \<^verbatim>\<open>for i in range(start_index, len(lines))\<close>. \<open>Closed i\<close>: line 79
  returned \<open>i\<close>; \<open>Exhausted\<close>: the loop ran off the end of the buffer.
\<close>

datatype scan_result = Closed nat | Exhausted

function scan_lines :: "string list \<Rightarrow> nat \<Rightarrow> scan_state \<Rightarrow> scan_result option" where
  "scan_lines lines i st =
     (if i < length lines then
        do {
          line \<leftarrow> getitem lines i;
          r \<leftarrow> scan_line line 0 st;
          (case r of
             Found \<Rightarrow> Some (Closed i)
           | Continue st' \<Rightarrow> scan_lines lines (i + 1) st')
        }
      else Some Exhausted)"
  by pat_completeness auto
termination
  by (relation "measure (\<lambda>(lines, i, st). length lines - i)") auto

declare scan_lines.simps [simp del]

text \<open>Lines 23 to 85; after the loop, line 85 returns \<^verbatim>\<open>start_index\<close>.\<close>

definition find_testcase_end :: "string list \<Rightarrow> nat \<Rightarrow> nat option" where
  "find_testcase_end lines start_index =
     do {
       r \<leftarrow> scan_lines lines start_index init_state;
       (case r of
          Closed i \<Rightarrow> Some i
        | Exhausted \<Rightarrow> Some start_index)
     }"

text \<open>
  The configurations the two loops pass through when \<^verbatim>\<open>find_testcase_end\<close> is called
  on \<open>lines\<close> and \<open>start_index\<close>: the line \<open>i\<close>, the column \<open>j\<close> and the scan state at
  the head of the inner loop. The scan starts at column 0 of the start line in the
  initial state, one pass of the inner loop's body moves to the column and state of
  \<open>step\<close>, and the end of a line moves to column 0 of the next line with the state kept.
\<close>

inductive scan_reach :: "string list \<Rightarrow> nat \<Rightarrow> nat \<Rightarrow> nat \<Rightarrow> scan_state \<Rightarrow> bool"
  for lines :: "string list" and start_index :: nat where
  reach_start: "scan_reach lines start_index start_index 0 init_state"
| reach_step: "scan_reach lines start_index i j st \<Longrightarrow> i < length lines \<Longrightarrow>
     j < length (lines ! i) \<Longrightarrow> step (lines ! i) j st = Some (Next j' st') \<Longrightarrow>
     scan_reach lines start_index i j' st'"
| reach_next_line: "scan_reach lines start_index i j st \<Longrightarrow> i < length lines \<Longrightarrow>
     \<not> j < length (lines ! i) \<Longrightarrow> scan_reach lines start_index (i + 1) 0 st"

section \<open>The attribute rewriter: \<^verbatim>\<open>process_file\<close>\<close>

text \<open>Lines 15 to 21: the dictionary from backend identifiers to guard symbols.\<close>

definition DB_TYPE_TO_SYMBOL :: "string \<rightharpoonup> string" where
  "DB_TYPE_TO_SYMBOL =
     map_of [
       (''MicrosoftSQLServer'', ''MSSQL_TESTS''),
       (''MySql'', ''MYSQL_TESTS''),
       (''Oracle'', ''ORACLE_TESTS''),
       (''PostgreSql'', ''POSTGRESQL_TESTS''),
       (''Sqlite'', ''SQLITE_TESTS'')]"

text \<open>
  The character classes \<^verbatim>\<open>\s\<close> and \<^verbatim>\<open>\w\<close> of Python's \<^verbatim>\<open>re\<close> module on a \<^verbatim>\<open>str\<close>
  pattern, for the code points below 256: \<^verbatim>\<open>\s\<close> is \<^verbatim>\<open>str.isspace\<close>, and \<^verbatim>\<open>\w\<close> is
  \<^verbatim>\<open>str.isalnum\<close> or the underscore.
\<close>

definition is_space :: "char \<Rightarrow> bool" where
  "is_space c =
     (let n = (of_char c :: nat)
      in (9 \<le> n \<and> n \<le> 13) \<or> (28 \<le> n \<and> n \<le> 32) \<or> n = 0x85 \<or> n = 0xA0)"

definition is_word :: "char \<Rightarrow> bool" where
  "is_word c =
     (let n = (of_char c :: nat)
      in (48 \<le> n \<and> n \<le> 57) \<or> (65 \<le> n \<and> n \<le> 90) \<or> n = 95 \<or> (97 \<le> n \<and> n \<le> 122)
         \<or> n = 0xAA \<or> n = 0xB2 \<or> n = 0xB3 \<or> n = 0xB5 \<or> n = 0xB9 \<or> n = 0xBA
         \<or> (0xBC \<le> n \<and> n \<le> 0xBE) \<or> (0xC0 \<le> n \<and> n \<le> 0xD6)
         \<or> (0xD8 \<le> n \<and> n \<le> 0xF6) \<or> (0xF8 \<le> n \<and> n \<le> 0xFF))"

text \<open>
  Line 115: \<^verbatim>\<open>re.match(r'^(\s*)\[TestCase\(DatabaseType\.(\w+)(?:,|\))', line)\<close>, returning
  the two groups. The pattern is anchored at the start of the line. Neither \<^verbatim>\<open>[\<close> is
  a space nor \<^verbatim>\<open>,\<close> or \<^verbatim>\<open>)\<close> a word character, so a match can only take the longest run of
  spaces and the longest run of word characters: backtracking finds no other match.
\<close>

definition match_header :: "string \<Rightarrow> (string \<times> string) option" where
  "match_header line =
     (let indent = takeWhile is_space line;
          rest = dropWhile is_space line
      in if prefix ''[TestCase(DatabaseType.'' rest then
           let rest' = drop (length ''[TestCase(DatabaseType.'') rest;
               db_type = takeWhile is_word rest'
           in (case dropWhile is_word rest' of
                 c # _ \<Rightarrow>
                   if db_type \<noteq> [] \<and> (c = CHR '','' \<or> c = CHR '')'') then Some (indent, db_type)
                   else None
               | [] \<Rightarrow> None)
         else None)"

text \<open>
  Lines 110 to 142: the loop \<^verbatim>\<open>while i < len(lines)\<close> of \<^verbatim>\<open>process_file\<close>, with the
  variables \<^verbatim>\<open>i\<close>, \<^verbatim>\<open>new_lines\<close> and \<^verbatim>\<open>count\<close> it updates. It ends with the pair
  \<^verbatim>\<open>(new_lines, count)\<close>. A line that matches with a backend identifier outside the
  dictionary falls through to line 141, as a line that does not match.
\<close>

lemma scan_lines_Closed: "scan_lines lines i st = Some (Closed k) \<Longrightarrow> i \<le> k \<and> k < length lines"
proof (induction lines i st rule: scan_lines.induct)
  case (1 lines i st)
  note unfold = scan_lines.simps [of lines i st]
  from "1.prems" have lt: "i < length lines"
    by (simp add: unfold split: if_splits)
  then have line: "getitem lines i = Some (lines ! i)"
    by (simp add: getitem_def)
  from "1.prems" lt line obtain r where r: "scan_line (lines ! i) 0 st = Some r"
    by (auto simp: unfold split: bind_splits)
  show ?case
  proof (cases r)
    case Found
    with "1.prems" lt line r show ?thesis by (simp add: unfold)
  next
    case (Continue st')
    with "1.prems" lt line r have "scan_lines lines (i + 1) st' = Some (Closed k)"
      by (simp add: unfold)
    with "1.IH" [OF lt line r Continue] show ?thesis by simp
  qed
qed

lemma find_testcase_end_lower: "find_testcase_end lines start_index = Some e \<Longrightarrow> start_index \<le> e"
  by (auto simp: find_testcase_end_def split: bind_splits scan_result.splits
      dest: scan_lines_Closed)

function rewrite_loop ::
  "string list \<Rightarrow> nat \<Rightarrow> string list \<Rightarrow> nat \<Rightarrow> (string list \<times> nat) option" where
  "rewrite_loop lines i new_lines count =
     (if i < length lines then
        do {
          line \<leftarrow> getitem lines i;
          (case match_header line of
             Some (indent, db_type) \<Rightarrow>
               (case DB_TYPE_TO_SYMBOL db_type of
                  Some symbol \<Rightarrow>
                    do {
                      end_line_index \<leftarrow> find_testcase_end lines i;
                      span \<leftarrow> those (map (getitem lines) [i..<end_line_index + 1]);
                      rewrite_loop lines (end_line_index + 1)
                        (new_lines @ [indent @ ''#if '' @ symbol] @ span @ [indent @ ''#endif''])
                        (count + 1)
                    }
                | None \<Rightarrow> rewrite_loop lines (i + 1) (new_lines @ [line]) count)
           | None \<Rightarrow> rewrite_loop lines (i + 1) (new_lines @ [line]) count)
        }
      else Some (new_lines, count))"
  by pat_completeness auto
termination
  by (relation "measure (\<lambda>(lines, i, new_lines, count). length lines - i)")
     (auto dest: find_testcase_end_lower)

declare rewrite_loop.simps [simp del]

text \<open>
  \<^verbatim>\<open>sub in content\<close>, \<^verbatim>\<open>content.split('\n')\<close> (which always returns at least one line)
  and \<^verbatim>\<open>'\n'.join(new_lines)\<close>.
\<close>

fun contains :: "string \<Rightarrow> string \<Rightarrow> bool" where
  "contains sub [] = (sub = [])"
| "contains sub (c # cs) = (prefix sub (c # cs) \<or> contains sub cs)"

fun split_from :: "string \<Rightarrow> string \<Rightarrow> string list" where
  "split_from cur [] = [cur]"
| "split_from cur (c # cs) =
     (if c = CHR 0x0A then cur # split_from [] cs else split_from (cur @ [c]) cs)"

definition split_nl :: "string \<Rightarrow> string list" where
  "split_nl content = split_from [] content"

fun join_nl :: "string list \<Rightarrow> string" where
  "join_nl [] = []"
| "join_nl [l] = l"
| "join_nl (l # ls) = l @ CHR 0x0A # join_nl ls"

text \<open>
  Lines 87 to 154, on the text of the file instead of its path: the argument is what
  \<^verbatim>\<open>read_text\<close> returns, and the result is the returned pair \<^verbatim>\<open>(count, modified)\<close> with
  the text of the file afterwards (\<^verbatim>\<open>write_text\<close> is called only when \<^verbatim>\<open>modified\<close>
  holds). Reading and writing are taken to succeed.
\<close>

definition process_file :: "string \<Rightarrow> ((nat \<times> bool) \<times> string) option" where
  "process_file content =
     (if contains ''#if MSSQL_TESTS'' content \<or> contains ''#if MYSQL_TESTS'' content then
        Some ((0, False), content)
      else
        do {
          (new_lines, count) \<leftarrow> rewrite_loop (split_nl content) 0 [] 0;
          let new_content = join_nl new_lines;
              modified = (new_content \<noteq> content)
          in Some ((count, modified), if modified then new_content else content)
        })"

text \<open>
  What the output guarantee of the rewriter says, as a relation between the input
  lines, the output lines and the number of wrapped spans: the output is the input with
  pairs of guard lines inserted. A line is copied, or a span of one or more input lines
  is put between an opening and a closing guard line; the span starts with an attribute
  header whose backend identifier is in the dictionary, and the two guard lines carry
  the header's indentation and the symbol of its backend. The number counts the spans.
\<close>

inductive guards_inserted :: "string list \<Rightarrow> string list \<Rightarrow> nat \<Rightarrow> bool" where
  nothing_left: "guards_inserted [] [] 0"
| line_copied: "guards_inserted ins outs n \<Longrightarrow> guards_inserted (l # ins) (l # outs) n"
| span_wrapped: "guards_inserted ins outs n \<Longrightarrow> span \<noteq> [] \<Longrightarrow>
     match_header (hd span) = Some (indent, db_type) \<Longrightarrow>
     DB_TYPE_TO_SYMBOL db_type = Some symbol \<Longrightarrow>
     guards_inserted (span @ ins)
       ([indent @ ''#if '' @ symbol] @ span @ [indent @ ''#endif''] @ outs) (n + 1)"

section \<open>The scanner raises nothing and stays inside the buffer\<close>

lemma getitem_in_range [simp]: "j < length xs \<Longrightarrow> getitem xs j = Some (xs ! j)"
  by (simp add: getitem_def)

lemma next_is_quote_eq:
  "next_is_quote line j = Some (j + 1 < length line \<and> line ! (j + 1) = dq)"
  by (simp add: next_is_quote_def)

lemma step_total: "j < length line \<Longrightarrow> \<exists>r. step line j st = Some r"
  by (simp add: step_def next_is_quote_eq)

lemma scan_line_total: "\<exists>r. scan_line line j st = Some r"
proof (induction line j st rule: scan_line.induct)
  case (1 line j st)
  show ?case
  proof (cases "j < length line")
    case False
    then show ?thesis by (simp add: scan_line.simps [of line j st])
  next
    case True
    then obtain r where r: "step line j st = Some r"
      using step_total by blast
    show ?thesis
    proof (cases r)
      case Return
      with True r show ?thesis by (simp add: scan_line.simps [of line j st])
    next
      case (Next j' st')
      with True r "1.IH" show ?thesis
        by (simp add: scan_line.simps [of line j st])
    qed
  qed
qed

lemma scan_lines_total: "\<exists>r. scan_lines lines i st = Some r"
proof (induction lines i st rule: scan_lines.induct)
  case (1 lines i st)
  show ?case
  proof (cases "i < length lines")
    case False
    then show ?thesis by (simp add: scan_lines.simps [of lines i st])
  next
    case True
    obtain r where r: "scan_line (lines ! i) 0 st = Some r"
      using scan_line_total by blast
    show ?thesis
    proof (cases r)
      case Found
      with True r show ?thesis by (simp add: scan_lines.simps [of lines i st])
    next
      case (Continue st')
      with True r "1.IH" [of "lines ! i" r st'] show ?thesis
        by (simp add: scan_lines.simps [of lines i st])
    qed
  qed
qed

lemma find_testcase_end_total: "\<exists>e. find_testcase_end lines start_index = Some e"
proof -
  obtain r where r: "scan_lines lines start_index init_state = Some r"
    using scan_lines_total by blast
  then show ?thesis
    by (cases r) (simp_all add: find_testcase_end_def)
qed

lemma find_testcase_end_upper:
  "start_index < length lines \<Longrightarrow> find_testcase_end lines start_index = Some e \<Longrightarrow>
     e < length lines"
  by (auto simp: find_testcase_end_def split: bind_splits scan_result.splits
      dest: scan_lines_Closed)

text \<open>
  Claim C10. For every list of lines and every \<open>start_index\<close> below its length,
  \<^verbatim>\<open>find_testcase_end\<close> terminates (the three functions of the scanner are total, by
  their termination proofs), raises no \<^verbatim>\<open>IndexError\<close> (the result is \<open>Some\<close>) and returns
  an index \<open>i\<close> with \<open>start_index \<le> i < len(lines)\<close>, whatever the start line holds.
\<close>

theorem find_testcase_end_in_range:
  "start_index < length lines \<Longrightarrow>
     \<exists>i. find_testcase_end lines start_index = Some i \<and> start_index \<le> i \<and> i < length lines"
proof -
  assume lt: "start_index < length lines"
  obtain e where e: "find_testcase_end lines start_index = Some e"
    using find_testcase_end_total by blast
  from e have "start_index \<le> e"
    by (rule find_testcase_end_lower)
  moreover from lt e have "e < length lines"
    by (rule find_testcase_end_upper)
  ultimately show ?thesis
    using e by simp
qed

text \<open>The start line of the witness has no bracket at all.\<close>

theorem find_testcase_end_in_range_witness:
  "(0::nat) < length [''no bracket here''] \<and>
   find_testcase_end [''no bracket here''] 0 = Some 0"
proof -
  have "find_testcase_end [''no bracket here''] 0 = Some 0"
    using find_testcase_end_in_range [of 0 "[''no bracket here'']"] by auto
  then show ?thesis by simp
qed

section \<open>What one pass of the inner loop does\<close>

lemma bracket_not_special:
  "c = CHR ''['' \<or> c = CHR '']'' \<Longrightarrow> c \<noteq> CHR ''@'' \<and> c \<noteq> dq \<and> c \<noteq> backslash"
  by (auto simp: dq_def backslash_def)

text \<open>
  Claim C5. At a column inside the line, while \<open>in_string\<close> or \<open>in_verbatim_string\<close>
  holds, every character (so \<^verbatim>\<open>[\<close> and \<^verbatim>\<open>]\<close> too) makes the scan go on, not return,
  and \<open>bracket_depth\<close> is the same after the pass. When neither flag holds, \<^verbatim>\<open>[\<close> adds one to
  \<open>bracket_depth\<close>, and \<^verbatim>\<open>]\<close> takes one off and returns when the depth reaches 0.
\<close>

theorem brackets_counted_outside_strings_only:
  assumes "j < length line"
  shows "(in_string st \<or> in_verbatim_string st \<longrightarrow>
            (\<exists>j' st'. step line j st = Some (Next j' st') \<and> bracket_depth st' = bracket_depth st))
       \<and> (\<not> in_string st \<and> \<not> in_verbatim_string st \<and> line ! j = CHR ''['' \<longrightarrow>
            step line j st =
              Some (Next (j + 1) (st\<lparr>bracket_depth := bracket_depth st + 1, escape_next := False\<rparr>)))
       \<and> (\<not> in_string st \<and> \<not> in_verbatim_string st \<and> line ! j = CHR '']'' \<longrightarrow>
            step line j st =
              (if bracket_depth st - 1 = 0 then Some Return
               else Some (Next (j + 1)
                 (st\<lparr>bracket_depth := bracket_depth st - 1, escape_next := False\<rparr>))))"
proof (intro conjI impI)
  assume "in_string st \<or> in_verbatim_string st"
  with assms show "\<exists>j' st'. step line j st = Some (Next j' st') \<and> bracket_depth st' = bracket_depth st"
    by (auto simp: step_def next_is_quote_eq count_brackets_def)
next
  assume "\<not> in_string st \<and> \<not> in_verbatim_string st \<and> line ! j = CHR ''[''"
  with assms bracket_not_special [of "line ! j"] show "step line j st =
      Some (Next (j + 1) (st\<lparr>bracket_depth := bracket_depth st + 1, escape_next := False\<rparr>))"
    by (simp add: step_def count_brackets_def)
next
  assume "\<not> in_string st \<and> \<not> in_verbatim_string st \<and> line ! j = CHR '']''"
  with assms bracket_not_special [of "line ! j"] show "step line j st =
      (if bracket_depth st - 1 = 0 then Some Return
       else Some (Next (j + 1) (st\<lparr>bracket_depth := bracket_depth st - 1, escape_next := False\<rparr>)))"
    by (simp add: step_def count_brackets_def)
qed

text \<open>The \<^verbatim>\<open>]\<close> of the string \<^verbatim>\<open>"]"\<close> is not counted; the brackets of \<^verbatim>\<open>[]\<close> are.\<close>

theorem brackets_counted_outside_strings_only_witness:
  \<open>(1::nat) < length ''"]"'' \<and> in_string (init_state\<lparr>in_string := True\<rparr>) \<and>
   ''"]"'' ! 1 = CHR '']'' \<and>
   step ''"]"'' 1 (init_state\<lparr>in_string := True\<rparr>) = Some (Next 2 (init_state\<lparr>in_string := True\<rparr>)) \<and>
   step ''[]'' 0 init_state = Some (Next 1 (init_state\<lparr>bracket_depth := 1\<rparr>)) \<and>
   step ''[]'' 1 (init_state\<lparr>bracket_depth := 1\<rparr>) = Some Return\<close>
proof -
  have a: \<open>\<exists>j' st'. step ''"]"'' 1 (init_state\<lparr>in_string := True\<rparr>) = Some (Next j' st') \<and>
      bracket_depth st' = bracket_depth (init_state\<lparr>in_string := True\<rparr>)\<close>
    using brackets_counted_outside_strings_only [of 1 \<open>''"]"''\<close> "init_state\<lparr>in_string := True\<rparr>"]
    by (simp add: init_state_def)
  have b: \<open>step ''[]'' 0 init_state = Some (Next 1 (init_state\<lparr>bracket_depth := 1\<rparr>))\<close>
    using brackets_counted_outside_strings_only [of 0 \<open>''[]''\<close> init_state]
    by (simp add: init_state_def)
  have c: \<open>step ''[]'' 1 (init_state\<lparr>bracket_depth := 1\<rparr>) = Some Return\<close>
    using brackets_counted_outside_strings_only [of 1 \<open>''[]''\<close> "init_state\<lparr>bracket_depth := 1\<rparr>"]
    by (simp add: init_state_def)
  have d: \<open>step ''"]"'' 1 (init_state\<lparr>in_string := True\<rparr>) = Some (Next 2 (init_state\<lparr>in_string := True\<rparr>))\<close>
    by (simp add: step_def count_brackets_def init_state_def dq_def backslash_def)
  from a b c d show ?thesis by (simp add: init_state_def)
qed

text \<open>
  Claim C6. Inside a verbatim string, at a double quote: when the next character of the
  line is a double quote too, both are consumed (the column advances by 2) and the state
  is unchanged, so the scanner is still inside the verbatim string; otherwise the column
  advances by 1 and \<open>in_verbatim_string\<close> is cleared. And a pass that leaves the verbatim
  string was at a double quote that is not followed by a double quote.
\<close>

theorem verbatim_quotes:
  assumes "in_verbatim_string st" and "j < length line"
  shows "(line ! j = dq \<and> j + 1 < length line \<and> line ! (j + 1) = dq \<longrightarrow>
            step line j st = Some (Next (j + 2) st))
       \<and> (line ! j = dq \<and> \<not> (j + 1 < length line \<and> line ! (j + 1) = dq) \<longrightarrow>
            step line j st = Some (Next (j + 1) (st\<lparr>in_verbatim_string := False\<rparr>)))
       \<and> (\<forall>j' st'. step line j st = Some (Next j' st') \<and> \<not> in_verbatim_string st' \<longrightarrow>
            line ! j = dq \<and> \<not> (j + 1 < length line \<and> line ! (j + 1) = dq))"
proof (intro conjI impI allI)
  assume "line ! j = dq \<and> j + 1 < length line \<and> line ! (j + 1) = dq"
  with assms show "step line j st = Some (Next (j + 2) st)"
    by (simp add: step_def next_is_quote_eq)
next
  assume "line ! j = dq \<and> \<not> (j + 1 < length line \<and> line ! (j + 1) = dq)"
  with assms show "step line j st = Some (Next (j + 1) (st\<lparr>in_verbatim_string := False\<rparr>))"
    by (simp add: step_def next_is_quote_eq)
next
  fix j' st'
  assume "step line j st = Some (Next j' st') \<and> \<not> in_verbatim_string st'"
  with assms show "line ! j = dq"
    by (auto simp: step_def next_is_quote_eq count_brackets_def split: if_splits)
next
  fix j' st'
  assume "step line j st = Some (Next j' st') \<and> \<not> in_verbatim_string st'"
  with assms show "\<not> (j + 1 < length line \<and> line ! (j + 1) = dq)"
    by (auto simp: step_def next_is_quote_eq count_brackets_def split: if_splits)
qed

text \<open>
  In \<^verbatim>\<open>@"a""b"\<close> the doubled quote at columns 3 and 4 is one token, and the quote at
  column 6 ends the verbatim string.
\<close>

theorem verbatim_quotes_witness:
  \<open>in_verbatim_string (init_state\<lparr>in_verbatim_string := True\<rparr>) \<and>
   (3::nat) < length ''@"a""b"'' \<and> ''@"a""b"'' ! 3 = dq \<and> ''@"a""b"'' ! 4 = dq \<and>
   step ''@"a""b"'' 3 (init_state\<lparr>in_verbatim_string := True\<rparr>) =
     Some (Next 5 (init_state\<lparr>in_verbatim_string := True\<rparr>)) \<and>
   step ''@"a""b"'' 6 (init_state\<lparr>in_verbatim_string := True\<rparr>) = Some (Next 7 init_state)\<close>
proof -
  have a: \<open>step ''@"a""b"'' 3 (init_state\<lparr>in_verbatim_string := True\<rparr>) =
     Some (Next 5 (init_state\<lparr>in_verbatim_string := True\<rparr>))\<close>
    using verbatim_quotes [of "init_state\<lparr>in_verbatim_string := True\<rparr>" 3 \<open>''@"a""b"''\<close>]
    by (simp add: init_state_def dq_def)
  have b: \<open>step ''@"a""b"'' 6 (init_state\<lparr>in_verbatim_string := True\<rparr>) = Some (Next 7 init_state)\<close>
    using verbatim_quotes [of "init_state\<lparr>in_verbatim_string := True\<rparr>" 6 \<open>''@"a""b"''\<close>]
    by (simp add: init_state_def dq_def)
  from a b show ?thesis by (simp add: init_state_def dq_def)
qed

text \<open>The whole line \<^verbatim>\<open>@"a""b"\<close> is scanned as one verbatim string.\<close>

lemma verbatim_example:
  \<open>scan_line ''@"a""b"'' 0 init_state = Some (Continue init_state)\<close>
  by code_simp

section \<open>The two string flags exclude each other\<close>

lemma step_keeps_exclusive:
  assumes "\<not> (in_string st \<and> in_verbatim_string st)" and "step line j st = Some (Next j' st')"
  shows "\<not> (in_string st' \<and> in_verbatim_string st')"
  using assms
  by (auto simp: step_def count_brackets_def split: bind_splits if_splits)

text \<open>
  Claim C9. For every buffer and start index, at every configuration the scan passes
  through, \<open>in_string\<close> and \<open>in_verbatim_string\<close> are not both true.
\<close>

theorem string_flags_exclusive:
  "scan_reach lines start_index i j st \<Longrightarrow> \<not> (in_string st \<and> in_verbatim_string st)"
proof (induction rule: scan_reach.induct)
  case reach_start
  show ?case by (simp add: init_state_def)
next
  case (reach_step i j st j' st')
  then show ?case using step_keeps_exclusive by blast
next
  case (reach_next_line i j st)
  then show ?case by simp
qed

text \<open>
  After the two characters that open a verbatim string the scan is inside a verbatim
  string and not inside a regular one.
\<close>

theorem string_flags_exclusive_witness:
  \<open>scan_reach [''@"]"''] 0 0 2 (init_state\<lparr>in_verbatim_string := True\<rparr>) \<and>
   \<not> (in_string (init_state\<lparr>in_verbatim_string := True\<rparr>) \<and>
      in_verbatim_string (init_state\<lparr>in_verbatim_string := True\<rparr>))\<close>
proof -
  have s: \<open>step ([''@"]"''] ! 0) 0 init_state = Some (Next 2 (init_state\<lparr>in_verbatim_string := True\<rparr>))\<close>
    by (simp add: step_def next_is_quote_eq init_state_def dq_def)
  have r: \<open>scan_reach [''@"]"''] 0 0 2 (init_state\<lparr>in_verbatim_string := True\<rparr>)\<close>
    by (rule reach_step [OF reach_start _ _ s]) simp_all
  from r string_flags_exclusive [OF r] show ?thesis by simp
qed

text \<open>
  The runs of \<open>scan_line\<close> and \<open>scan_lines\<close> stay inside \<open>scan_reach\<close>: started at a
  configuration of \<open>scan_reach\<close>, they end at one.
\<close>

lemma scan_line_reach:
  assumes "scan_reach lines s i j st" and "i < length lines"
  shows "(scan_line (lines ! i) j st = Some (Continue st') \<longrightarrow>
            (\<exists>j'. scan_reach lines s i j' st' \<and> \<not> j' < length (lines ! i)))
       \<and> (scan_line (lines ! i) j st = Some Found \<longrightarrow>
            (\<exists>j' st''. scan_reach lines s i j' st'' \<and> j' < length (lines ! i) \<and>
               step (lines ! i) j' st'' = Some Return))"
  using assms
proof (induction "lines ! i" j st rule: scan_line.induct)
  case (1 j st)
  note unfold = scan_line.simps [of "lines ! i" j st]
  show ?case
  proof (cases "j < length (lines ! i)")
    case False
    with "1.prems" show ?thesis by (auto simp: unfold)
  next
    case True
    then obtain r where r: "step (lines ! i) j st = Some r"
      using step_total by blast
    show ?thesis
    proof (cases r)
      case Return
      with True r "1.prems" show ?thesis by (auto simp: unfold)
    next
      case (Next j' st1)
      from "1.prems" True r Next have "scan_reach lines s i j' st1"
        by (auto intro: reach_step)
      with "1.hyps" [OF True r Next] "1.prems" True r Next show ?thesis
        by (simp add: unfold)
    qed
  qed
qed

lemma scan_lines_reach:
  assumes "scan_reach lines s i 0 st"
  shows "(scan_lines lines i st = Some (Closed k) \<longrightarrow>
            (\<exists>j st'. scan_reach lines s k j st' \<and> k < length lines \<and> j < length (lines ! k) \<and>
               step (lines ! k) j st' = Some Return))
       \<and> (scan_lines lines i st = Some Exhausted \<longrightarrow>
            (\<exists>i' st'. scan_reach lines s i' 0 st' \<and> \<not> i' < length lines))"
  using assms
proof (induction lines i st rule: scan_lines.induct)
  case (1 lines i st)
  note unfold = scan_lines.simps [of lines i st]
  show ?case
  proof (cases "i < length lines")
    case False
    with "1.prems" show ?thesis by (auto simp: unfold)
  next
    case True
    obtain r where r: "scan_line (lines ! i) 0 st = Some r"
      using scan_line_total by blast
    show ?thesis
    proof (cases r)
      case Found
      with True r scan_line_reach [OF "1.prems" True] show ?thesis
        by (auto simp: unfold)
    next
      case (Continue st1)
      with r scan_line_reach [OF "1.prems" True, of st1]
      obtain j' where j': "scan_reach lines s i j' st1" "\<not> j' < length (lines ! i)"
        by auto
      have "scan_reach lines s (i + 1) 0 st1"
        by (rule reach_next_line [OF j'(1) True j'(2)])
      with "1.IH" [of "lines ! i" r st1] True r Continue show ?thesis
        by (simp add: unfold)
    qed
  qed
qed

section \<open>The loop of the rewriter\<close>

text \<open>
  From any line on, the loop returns: it appends to the lines gathered so far the rest
  of the buffer with guard lines inserted, and adds the number of spans it wrapped.
\<close>

lemma those_map_getitem:
  "e < length lines \<Longrightarrow>
     those (map (getitem lines) [i..<e + 1]) = Some (map ((!) lines) [i..<e + 1])"
proof (induction "e + 1 - i" arbitrary: i)
  case 0
  then show ?case by simp
next
  case (Suc d)
  then have lt: "i < e + 1" by simp
  from Suc.hyps(2) have d: "d = e + 1 - Suc i" by simp
  from lt have "[i..<e + 1] = i # [Suc i..<e + 1]"
    by (simp add: upt_conv_Cons)
  with Suc.hyps(1) [OF d Suc.prems] lt Suc.prems show ?case by simp
qed

lemma span_then_rest:
  assumes "i \<le> e" and "e < length lines"
  shows "map ((!) lines) [i..<e + 1] @ drop (e + 1) lines = drop i lines"
proof -
  let ?n = "Suc e - i"
  have a: "map ((!) lines) [i..<Suc e] = take ?n (drop i lines)"
    using assms by (auto simp del: upt_Suc simp add: list_eq_iff_nth_eq)
  have b: "drop ?n (drop i lines) = drop (Suc e) lines"
    using assms by simp
  have "map ((!) lines) [i..<Suc e] @ drop (Suc e) lines =
        take ?n (drop i lines) @ drop ?n (drop i lines)"
    by (simp only: a b)
  also have "\<dots> = drop i lines"
    by (rule append_take_drop_id)
  finally show ?thesis by (simp del: upt_Suc)
qed

lemma rewrite_loop_inserts:
  "i \<le> length lines \<Longrightarrow>
     \<exists>outs k. rewrite_loop lines i new_lines count = Some (new_lines @ outs, count + k) \<and>
       guards_inserted (drop i lines) outs k"
proof (induction lines i new_lines count rule: rewrite_loop.induct)
  case (1 lines i new_lines count)
  note unfold = rewrite_loop.simps [of lines i new_lines count]
  show ?case
  proof (cases "i < length lines")
    case False
    then have "rewrite_loop lines i new_lines count = Some (new_lines @ [], count + 0)"
      by (simp add: unfold)
    moreover from False have "guards_inserted (drop i lines) [] 0"
      by (simp add: nothing_left)
    ultimately show ?thesis by blast
  next
    case True
    then have line: "getitem lines i = Some (lines ! i)" by simp
    from True have dropi: "drop i lines = lines ! i # drop (i + 1) lines"
      by (simp add: Cons_nth_drop_Suc)
    from True have le: "i + 1 \<le> length lines" by simp
    show ?thesis
    proof (cases "match_header (lines ! i)")
      case None
      from "1.IH"(1) [OF True line None le]
      obtain outs k where
        r: "rewrite_loop lines (i + 1) (new_lines @ [lines ! i]) count =
              Some ((new_lines @ [lines ! i]) @ outs, count + k)"
        and g: "guards_inserted (drop (i + 1) lines) outs k"
        by blast
      from g have "guards_inserted (drop i lines) (lines ! i # outs) k"
        unfolding dropi by (rule line_copied)
      with r True None show ?thesis
        by (auto simp: unfold)
    next
      case (Some m)
      obtain indent db_type where m: "m = (indent, db_type)" by (cases m)
      show ?thesis
      proof (cases "DB_TYPE_TO_SYMBOL db_type")
        case None
        from "1.IH"(2) [OF True line Some m [symmetric] None le]
        obtain outs k where
          r: "rewrite_loop lines (i + 1) (new_lines @ [lines ! i]) count =
                Some ((new_lines @ [lines ! i]) @ outs, count + k)"
          and g: "guards_inserted (drop (i + 1) lines) outs k"
          by blast
        from g have "guards_inserted (drop i lines) (lines ! i # outs) k"
          unfolding dropi by (rule line_copied)
        with r True Some m None show ?thesis
          by (auto simp: unfold)
      next
        case (Some symbol)
        obtain e where e: "find_testcase_end lines i = Some e"
          using find_testcase_end_total by blast
        from e have ie: "i \<le> e"
          by (rule find_testcase_end_lower)
        from True e have el: "e < length lines"
          by (rule find_testcase_end_upper)
        let ?span = "map ((!) lines) [i..<e + 1]"
        have span: "those (map (getitem lines) [i..<e + 1]) = Some ?span"
          using el by (rule those_map_getitem)
        from el have le': "e + 1 \<le> length lines" by simp
        let ?acc = "new_lines @ [indent @ ''#if '' @ symbol] @ ?span @ [indent @ ''#endif'']"
        from "1.IH"(3) [OF True line \<open>match_header (lines ! i) = Some m\<close> m [symmetric] Some e span le']
        obtain outs k where
          r: "rewrite_loop lines (e + 1) ?acc (count + 1) = Some (?acc @ outs, count + 1 + k)"
          and g: "guards_inserted (drop (e + 1) lines) outs k"
          by blast
        from ie have ne: "?span \<noteq> []" by simp
        from ie have "[i..<e + 1] = i # [Suc i..<e + 1]"
          by (simp add: upt_conv_Cons)
        then have hd: "hd ?span = lines ! i" by simp
        from \<open>match_header (lines ! i) = Some m\<close> m hd
        have mh: "match_header (hd ?span) = Some (indent, db_type)" by simp
        have "guards_inserted (?span @ drop (e + 1) lines)
                ([indent @ ''#if '' @ symbol] @ ?span @ [indent @ ''#endif''] @ outs) (k + 1)"
          by (rule span_wrapped [OF g ne mh Some])
        then have g': "guards_inserted (drop i lines)
                ([indent @ ''#if '' @ symbol] @ ?span @ [indent @ ''#endif''] @ outs) (k + 1)"
          by (simp only: span_then_rest [OF ie el])
        have "rewrite_loop lines i new_lines count = rewrite_loop lines (e + 1) ?acc (count + 1)"
          using True line \<open>match_header (lines ! i) = Some m\<close> m Some e span
          by (simp add: unfold del: upt_Suc)
        with r have "rewrite_loop lines i new_lines count =
            Some (new_lines @ ([indent @ ''#if '' @ symbol] @ ?span @ [indent @ ''#endif''] @ outs),
                  count + (k + 1))"
          by (simp del: upt_Suc)
        with g' show ?thesis by blast
      qed
    qed
  qed
qed

text \<open>
  What the loop appends and what it adds to the count depend on the buffer and the line
  it is at only, not on the lines gathered and the count so far.
\<close>

lemma rewrite_loop_acc:
  "rewrite_loop lines i new_lines count =
     map_option (\<lambda>(outs, k). (new_lines @ outs, count + k)) (rewrite_loop lines i [] 0)"
proof (induction "length lines - i" arbitrary: i new_lines count rule: less_induct)
  case less
  show ?case
  proof (cases "i < length lines")
    case False
    then show ?thesis
      by (simp add: rewrite_loop.simps [of lines i])
  next
    case True
    then have line: "getitem lines i = Some (lines ! i)" by simp
    have "\<exists>i' emitted d. i < i' \<and>
        (\<forall>acc n. rewrite_loop lines i acc n = rewrite_loop lines i' (acc @ emitted) (n + d))"
    proof (cases "match_header (lines ! i)")
      case None
      with True line have "\<forall>acc n. rewrite_loop lines i acc n =
          rewrite_loop lines (i + 1) (acc @ [lines ! i]) (n + 0)"
        by (simp add: rewrite_loop.simps [of lines i])
      moreover have "i < i + 1" by simp
      ultimately show ?thesis by blast
    next
      case (Some m)
      obtain indent db_type where m: "m = (indent, db_type)" by (cases m)
      show ?thesis
      proof (cases "DB_TYPE_TO_SYMBOL db_type")
        case None
        with True line Some m have "\<forall>acc n. rewrite_loop lines i acc n =
            rewrite_loop lines (i + 1) (acc @ [lines ! i]) (n + 0)"
          by (simp add: rewrite_loop.simps [of lines i])
        moreover have "i < i + 1" by simp
        ultimately show ?thesis by blast
      next
        case (Some symbol)
        obtain e where e: "find_testcase_end lines i = Some e"
          using find_testcase_end_total by blast
        from e have ie: "i \<le> e"
          by (rule find_testcase_end_lower)
        from True e have el: "e < length lines"
          by (rule find_testcase_end_upper)
        have span: "those (map (getitem lines) [i..<e + 1]) = Some (map ((!) lines) [i..<e + 1])"
          using el by (rule those_map_getitem)
        from True line \<open>match_header (lines ! i) = Some m\<close> m Some e span
        have "\<forall>acc n. rewrite_loop lines i acc n =
            rewrite_loop lines (e + 1)
              (acc @ ([indent @ ''#if '' @ symbol] @ map ((!) lines) [i..<e + 1] @ [indent @ ''#endif'']))
              (n + 1)"
          by (simp add: rewrite_loop.simps [of lines i] del: upt_Suc)
        moreover from ie have "i < e + 1" by simp
        ultimately show ?thesis by blast
      qed
    qed
    then obtain i' emitted d where lt: "i < i'"
      and unf: "\<And>acc n. rewrite_loop lines i acc n = rewrite_loop lines i' (acc @ emitted) (n + d)"
      by blast
    from lt True have dec: "length lines - i' < length lines - i" by simp
    have "rewrite_loop lines i new_lines count =
        rewrite_loop lines i' (new_lines @ emitted) (count + d)"
      by (rule unf)
    also have "\<dots> = map_option (\<lambda>(outs, k). ((new_lines @ emitted) @ outs, (count + d) + k))
        (rewrite_loop lines i' [] 0)"
      by (rule less.hyps [OF dec])
    finally have lhs: "rewrite_loop lines i new_lines count =
        map_option (\<lambda>(outs, k). ((new_lines @ emitted) @ outs, (count + d) + k))
          (rewrite_loop lines i' [] 0)" .
    have "rewrite_loop lines i [] 0 = rewrite_loop lines i' ([] @ emitted) (0 + d)"
      by (rule unf)
    also have "\<dots> = map_option (\<lambda>(outs, k). (([] @ emitted) @ outs, (0 + d) + k))
        (rewrite_loop lines i' [] 0)"
      by (rule less.hyps [OF dec])
    finally have rhs: "rewrite_loop lines i [] 0 =
        map_option (\<lambda>(outs, k). (([] @ emitted) @ outs, (0 + d) + k))
          (rewrite_loop lines i' [] 0)" .
    show ?thesis
      by (cases "rewrite_loop lines i' [] 0") (auto simp: lhs rhs)
  qed
qed

lemma rewrite_loop_rest:
  assumes "i' \<le> length lines"
  shows "\<exists>outs k. rewrite_loop lines i' [] 0 = Some (outs, k) \<and>
           guards_inserted (drop i' lines) outs k \<and>
           (\<forall>acc n. rewrite_loop lines i' acc n = Some (acc @ outs, n + k))"
proof -
  from rewrite_loop_inserts [OF assms, of "[]" 0]
  obtain outs k where r: "rewrite_loop lines i' [] 0 = Some (outs, k)"
    and g: "guards_inserted (drop i' lines) outs k"
    by auto
  have "\<forall>acc n. rewrite_loop lines i' acc n = Some (acc @ outs, n + k)"
  proof (intro allI)
    fix acc n
    have "rewrite_loop lines i' acc n =
        map_option (\<lambda>(outs, k). (acc @ outs, n + k)) (rewrite_loop lines i' [] 0)"
      by (rule rewrite_loop_acc)
    then show "rewrite_loop lines i' acc n = Some (acc @ outs, n + k)"
      by (simp add: r)
  qed
  with r g show ?thesis by blast
qed

section \<open>The rewriter on attribute headers\<close>

text \<open>
  Claim C8. The single input line \<^verbatim>\<open>[TestCase(DatabaseType.MySql, "x")]\<close>, indented by two
  spaces, matches as a header with indentation of two spaces and backend \<^verbatim>\<open>MySql\<close>,
  whose symbol is \<^verbatim>\<open>MYSQL_TESTS\<close>; the loop returns the three lines \<^verbatim>\<open>#if MYSQL_TESTS\<close>,
  the line itself and \<^verbatim>\<open>#endif\<close>, the guard lines indented by the same two spaces, with
  count 1, and the file is rewritten to these three lines. The dictionary maps exactly
  the five backend identifiers, each to its symbol.
\<close>

theorem mysql_example:
  \<open>match_header ''  [TestCase(DatabaseType.MySql, "x")]'' = Some (''  '', ''MySql'') \<and>
   DB_TYPE_TO_SYMBOL ''MySql'' = Some ''MYSQL_TESTS'' \<and>
   rewrite_loop [''  [TestCase(DatabaseType.MySql, "x")]''] 0 [] 0 =
     Some ([''  #if MYSQL_TESTS'', ''  [TestCase(DatabaseType.MySql, "x")]'', ''  #endif''], 1) \<and>
   process_file ''  [TestCase(DatabaseType.MySql, "x")]'' =
     Some ((1, True),
       ''  #if MYSQL_TESTS\<newline>  [TestCase(DatabaseType.MySql, "x")]\<newline>  #endif'') \<and>
   DB_TYPE_TO_SYMBOL ''MicrosoftSQLServer'' = Some ''MSSQL_TESTS'' \<and>
   DB_TYPE_TO_SYMBOL ''Oracle'' = Some ''ORACLE_TESTS'' \<and>
   DB_TYPE_TO_SYMBOL ''PostgreSql'' = Some ''POSTGRESQL_TESTS'' \<and>
   DB_TYPE_TO_SYMBOL ''Sqlite'' = Some ''SQLITE_TESTS'' \<and>
   dom DB_TYPE_TO_SYMBOL = {''MicrosoftSQLServer'', ''MySql'', ''Oracle'', ''PostgreSql'', ''Sqlite''}\<close>
proof (intro conjI)
  show \<open>match_header ''  [TestCase(DatabaseType.MySql, "x")]'' = Some (''  '', ''MySql'')\<close>
    by code_simp
  show \<open>rewrite_loop [''  [TestCase(DatabaseType.MySql, "x")]''] 0 [] 0 =
     Some ([''  #if MYSQL_TESTS'', ''  [TestCase(DatabaseType.MySql, "x")]'', ''  #endif''], 1)\<close>
    by code_simp
  show \<open>process_file ''  [TestCase(DatabaseType.MySql, "x")]'' =
     Some ((1, True),
       ''  #if MYSQL_TESTS\<newline>  [TestCase(DatabaseType.MySql, "x")]\<newline>  #endif'')\<close>
    by code_simp
  show "dom DB_TYPE_TO_SYMBOL = {''MicrosoftSQLServer'', ''MySql'', ''Oracle'', ''PostgreSql'', ''Sqlite''}"
    by (simp add: DB_TYPE_TO_SYMBOL_def dom_def) (auto split: if_splits)
qed (simp_all add: DB_TYPE_TO_SYMBOL_def)

text \<open>
  Claim C7. When the loop is at a line that matches as a header with a backend
  identifier outside the dictionary, the lines it returns are the lines gathered so
  far, then that line unchanged, then what the loop makes of the lines after it; the
  count it returns is the count so far plus the spans wrapped in the lines after it. So
  the line is copied to the output with no guard line before or after it and adds
  nothing to the count. In particular the input line
  \<^verbatim>\<open>[TestCase(DatabaseType.Unknown, 1)]\<close> is returned unchanged with count 0, and the file
  is not modified.
\<close>

theorem unknown_backend_copied:
  "(i < length lines \<and> match_header (lines ! i) = Some (indent, db_type) \<and>
      db_type \<notin> dom DB_TYPE_TO_SYMBOL \<longrightarrow>
      (\<exists>outs k.
         rewrite_loop lines (i + 1) [] 0 = Some (outs, k) \<and>
         guards_inserted (drop (i + 1) lines) outs k \<and>
         rewrite_loop lines i new_lines count = Some (new_lines @ [lines ! i] @ outs, count + k)))
   \<and> rewrite_loop [''[TestCase(DatabaseType.Unknown, 1)]''] 0 [] 0 =
        Some ([''[TestCase(DatabaseType.Unknown, 1)]''], 0)
   \<and> process_file ''[TestCase(DatabaseType.Unknown, 1)]'' =
        Some ((0, False), ''[TestCase(DatabaseType.Unknown, 1)]'')"
proof (intro conjI impI)
  assume a: "i < length lines \<and> match_header (lines ! i) = Some (indent, db_type) \<and>
      db_type \<notin> dom DB_TYPE_TO_SYMBOL"
  then have le: "i + 1 \<le> length lines" by simp
  from rewrite_loop_rest [OF le]
  obtain outs k where r: "rewrite_loop lines (i + 1) [] 0 = Some (outs, k)"
    and g: "guards_inserted (drop (i + 1) lines) outs k"
    and acc: "\<And>acc n. rewrite_loop lines (i + 1) acc n = Some (acc @ outs, n + k)"
    by blast
  from a have "rewrite_loop lines i new_lines count =
      rewrite_loop lines (i + 1) (new_lines @ [lines ! i]) count"
    by (simp add: rewrite_loop.simps [of lines i new_lines count] domIff)
  also have "\<dots> = Some ((new_lines @ [lines ! i]) @ outs, count + k)"
    by (rule acc)
  finally have "rewrite_loop lines i new_lines count =
      Some (new_lines @ [lines ! i] @ outs, count + k)"
    by simp
  with r g show "\<exists>outs k.
         rewrite_loop lines (i + 1) [] 0 = Some (outs, k) \<and>
         guards_inserted (drop (i + 1) lines) outs k \<and>
         rewrite_loop lines i new_lines count = Some (new_lines @ [lines ! i] @ outs, count + k)"
    by blast
next
  show "rewrite_loop [''[TestCase(DatabaseType.Unknown, 1)]''] 0 [] 0 =
        Some ([''[TestCase(DatabaseType.Unknown, 1)]''], 0)"
    by code_simp
next
  show "process_file ''[TestCase(DatabaseType.Unknown, 1)]'' =
        Some ((0, False), ''[TestCase(DatabaseType.Unknown, 1)]'')"
    by code_simp
qed

text \<open>
  The header with the backend \<^verbatim>\<open>Unknown\<close>, followed by one more line: the output is the
  input, and the count is 0.
\<close>

theorem unknown_backend_copied_witness:
  "(0::nat) < length [''[TestCase(DatabaseType.Unknown, 1)]'', ''x''] \<and>
   match_header ([''[TestCase(DatabaseType.Unknown, 1)]'', ''x''] ! 0) = Some ('''', ''Unknown'') \<and>
   ''Unknown'' \<notin> dom DB_TYPE_TO_SYMBOL \<and>
   rewrite_loop [''[TestCase(DatabaseType.Unknown, 1)]'', ''x''] 0 [] 0 =
     Some ([''[TestCase(DatabaseType.Unknown, 1)]'', ''x''], 0)"
proof -
  let ?lines = "[''[TestCase(DatabaseType.Unknown, 1)]'', ''x'']"
  have m: "match_header (?lines ! 0) = Some ('''', ''Unknown'')"
    by code_simp
  have d: "''Unknown'' \<notin> dom DB_TYPE_TO_SYMBOL"
    by (simp add: DB_TYPE_TO_SYMBOL_def domIff)
  have rest: "rewrite_loop ?lines (0 + 1) [] 0 = Some ([''x''], 0)"
    by code_simp
  from m d unknown_backend_copied [of 0 ?lines "''''" "''Unknown''" "[]" 0]
  obtain outs k where "rewrite_loop ?lines (0 + 1) [] 0 = Some (outs, k)"
    and "rewrite_loop ?lines 0 [] 0 = Some ([] @ [?lines ! 0] @ outs, 0 + k)"
    by auto
  with rest have "rewrite_loop ?lines 0 [] 0 = Some (?lines, 0)"
    by simp
  with m d show ?thesis by simp
qed

text \<open>
  Claim C3, as stated, fails. The line \<^verbatim>\<open>[TestCase(DatabaseType.MySql, 1\<close> has no closing
  bracket: the scanner runs off the end of the buffer and returns the start index 0,
  and the rewriter still emits the opening and the closing guard around the line and
  counts one wrapped attribute.
\<close>

theorem unclosed_attribute_is_wrapped:
  \<open>scan_lines [''[TestCase(DatabaseType.MySql, 1''] 0 init_state = Some Exhausted \<and>
   find_testcase_end [''[TestCase(DatabaseType.MySql, 1''] 0 = Some 0 \<and>
   rewrite_loop [''[TestCase(DatabaseType.MySql, 1''] 0 [] 0 =
     Some ([''#if MYSQL_TESTS'', ''[TestCase(DatabaseType.MySql, 1'', ''#endif''], 1)\<close>
  by (intro conjI; code_simp)

text \<open>
  Claim C3, amended. When the loop is at a header with a backend identifier of the
  dictionary and the scanner exhausts the buffer from there, \<^verbatim>\<open>find_testcase_end\<close>
  returns the start index, and the rewriter wraps the header line alone: the lines it
  returns are the lines gathered so far, then the opening guard, the header line and
  the closing guard, then what the loop makes of the lines after the header; the count
  it returns is the count so far, plus one, plus the spans wrapped in the lines after
  the header.
\<close>

theorem unclosed_attribute_wrapped_alone:
  assumes "i < length lines"
    and "match_header (lines ! i) = Some (indent, db_type)"
    and "DB_TYPE_TO_SYMBOL db_type = Some symbol"
    and "scan_lines lines i init_state = Some Exhausted"
  shows "find_testcase_end lines i = Some i \<and>
         (\<exists>outs k.
            rewrite_loop lines (i + 1) [] 0 = Some (outs, k) \<and>
            guards_inserted (drop (i + 1) lines) outs k \<and>
            rewrite_loop lines i new_lines count =
              Some (new_lines @ [indent @ ''#if '' @ symbol, lines ! i, indent @ ''#endif''] @ outs,
                    count + 1 + k))"
proof -
  from assms(4) have e: "find_testcase_end lines i = Some i"
    by (simp add: find_testcase_end_def)
  from assms(1) have span: "those (map (getitem lines) [i..<i + 1]) = Some [lines ! i]"
    by simp
  from assms(1) have le: "i + 1 \<le> length lines" by simp
  from rewrite_loop_rest [OF le]
  obtain outs k where r: "rewrite_loop lines (i + 1) [] 0 = Some (outs, k)"
    and g: "guards_inserted (drop (i + 1) lines) outs k"
    and acc: "\<And>acc n. rewrite_loop lines (i + 1) acc n = Some (acc @ outs, n + k)"
    by blast
  from assms(1-3) e span have "rewrite_loop lines i new_lines count =
      rewrite_loop lines (i + 1)
        (new_lines @ [indent @ ''#if '' @ symbol, lines ! i, indent @ ''#endif'']) (count + 1)"
    by (simp add: rewrite_loop.simps [of lines i new_lines count])
  also have "\<dots> =
      Some ((new_lines @ [indent @ ''#if '' @ symbol, lines ! i, indent @ ''#endif'']) @ outs,
            count + 1 + k)"
    by (rule acc)
  finally have "rewrite_loop lines i new_lines count =
      Some (new_lines @ [indent @ ''#if '' @ symbol, lines ! i, indent @ ''#endif''] @ outs,
            count + 1 + k)"
    by simp
  with e r g show ?thesis by blast
qed

text \<open>
  An attribute that is still open at the end of a buffer of two lines: the header line
  is wrapped alone, the second line follows the closing guard, and the count is 1.
\<close>

theorem unclosed_attribute_wrapped_alone_witness:
  \<open>(0::nat) < length [''  [TestCase(DatabaseType.Sqlite,'', ''  "a"''] \<and>
   match_header ([''  [TestCase(DatabaseType.Sqlite,'', ''  "a"''] ! 0) = Some (''  '', ''Sqlite'') \<and>
   DB_TYPE_TO_SYMBOL ''Sqlite'' = Some ''SQLITE_TESTS'' \<and>
   scan_lines [''  [TestCase(DatabaseType.Sqlite,'', ''  "a"''] 0 init_state = Some Exhausted \<and>
   find_testcase_end [''  [TestCase(DatabaseType.Sqlite,'', ''  "a"''] 0 = Some 0 \<and>
   rewrite_loop [''  [TestCase(DatabaseType.Sqlite,'', ''  "a"''] 0 [] 0 =
     Some ([''  #if SQLITE_TESTS'', ''  [TestCase(DatabaseType.Sqlite,'', ''  #endif'', ''  "a"''], 1)\<close>
proof -
  let ?lines = \<open>[''  [TestCase(DatabaseType.Sqlite,'', ''  "a"'']\<close>
  have lt: "(0::nat) < length ?lines"
    by simp
  have m: "match_header (?lines ! 0) = Some (''  '', ''Sqlite'')"
    by code_simp
  have d: "DB_TYPE_TO_SYMBOL ''Sqlite'' = Some ''SQLITE_TESTS''"
    by (simp add: DB_TYPE_TO_SYMBOL_def)
  have x: "scan_lines ?lines 0 init_state = Some Exhausted"
    by code_simp
  have rest: \<open>rewrite_loop ?lines (0 + 1) [] 0 = Some ([''  "a"''], 0)\<close>
    by code_simp
  from unclosed_attribute_wrapped_alone [OF lt m d x, of "[]" 0]
  obtain outs k where f: "find_testcase_end ?lines 0 = Some 0"
    and "rewrite_loop ?lines (0 + 1) [] 0 = Some (outs, k)"
    and "rewrite_loop ?lines 0 [] 0 =
      Some ([] @ [''  '' @ ''#if '' @ ''SQLITE_TESTS'', ?lines ! 0, ''  '' @ ''#endif''] @ outs,
            0 + 1 + k)"
    by auto
  with rest have \<open>rewrite_loop ?lines 0 [] 0 =
      Some ([''  #if SQLITE_TESTS'', ''  [TestCase(DatabaseType.Sqlite,'', ''  #endif'', ''  "a"''], 1)\<close>
    by simp
  with lt m d x f show ?thesis by simp
qed

section \<open>The output is the input with guard lines inserted\<close>

lemma keep_all: "map fst (filter snd (zip xs (replicate (length xs) True))) = xs"
  by (induction xs) simp_all

lemma guards_inserted_deletable:
  "guards_inserted ins outs n \<Longrightarrow>
     \<exists>keep. length keep = length outs \<and> map fst (filter snd (zip outs keep)) = ins \<and>
       length (filter Not keep) = 2 * n"
proof (induction rule: guards_inserted.induct)
  case nothing_left
  show ?case by simp
next
  case (line_copied ins outs n l)
  then obtain keep where k: "length keep = length outs"
    "map fst (filter snd (zip outs keep)) = ins" "length (filter Not keep) = 2 * n"
    by blast
  let ?keep = "True # keep"
  from k have "length ?keep = length (l # outs) \<and>
      map fst (filter snd (zip (l # outs) ?keep)) = l # ins \<and>
      length (filter Not ?keep) = 2 * n"
    by simp
  then show ?case by (rule exI [of _ ?keep])
next
  case (span_wrapped ins outs n span indent db_type symbol)
  then obtain keep where k: "length keep = length outs"
    "map fst (filter snd (zip outs keep)) = ins" "length (filter Not keep) = 2 * n"
    by blast
  let ?keep = "False # replicate (length span) True @ False # keep"
  let ?outs = "[indent @ ''#if '' @ symbol] @ span @ [indent @ ''#endif''] @ outs"
  have z: "zip (span @ (indent @ ''#endif'') # outs) (replicate (length span) True @ False # keep) =
        zip span (replicate (length span) True) @ zip ((indent @ ''#endif'') # outs) (False # keep)"
    by (simp add: zip_append)
  have "length ?keep = length ?outs"
    using k(1) by simp
  moreover have "map fst (filter snd (zip ?outs ?keep)) = span @ ins"
    using k(2) by (simp add: z keep_all del: replicate.simps)
  moreover have "length (filter Not ?keep) = 2 * (n + 1)"
    using k(3) by simp
  ultimately have "length ?keep = length ?outs \<and>
      map fst (filter snd (zip ?outs ?keep)) = span @ ins \<and>
      length (filter Not ?keep) = 2 * (n + 1)"
    by simp
  then show ?case by (rule exI [of _ ?keep])
qed

text \<open>
  Claim C4. For every list of input lines the loop returns (it raises nothing), and its
  output is the input with guard lines inserted: every input line is in the output,
  unchanged and in the same order, each wrapped span between one opening and one
  closing guard line, and the count is the number of wrapped spans. So the output has
  two lines per counted span that are not input lines, and deleting them (keeping the
  lines marked in \<open>keep\<close>) gives back the input.
\<close>

theorem rewriter_only_inserts_guards:
  "\<exists>new_lines count.
     rewrite_loop lines 0 [] 0 = Some (new_lines, count) \<and>
     guards_inserted lines new_lines count \<and>
     (\<exists>keep. length keep = length new_lines \<and>
        map fst (filter snd (zip new_lines keep)) = lines \<and>
        length (filter Not keep) = 2 * count)"
proof -
  from rewrite_loop_inserts [of 0 lines "[]" 0]
  obtain outs k where r: "rewrite_loop lines 0 [] 0 = Some (outs, k)"
    and g: "guards_inserted lines outs k"
    by auto
  from guards_inserted_deletable [OF g]
  obtain keep where "length keep = length outs \<and>
      map fst (filter snd (zip outs keep)) = lines \<and> length (filter Not keep) = 2 * k"
    by (elim exE)
  then have "\<exists>keep. length keep = length outs \<and>
      map fst (filter snd (zip outs keep)) = lines \<and> length (filter Not keep) = 2 * k"
    by (rule exI)
  with r g have "rewrite_loop lines 0 [] 0 = Some (outs, k) \<and> guards_inserted lines outs k \<and>
     (\<exists>keep. length keep = length outs \<and>
        map fst (filter snd (zip outs keep)) = lines \<and> length (filter Not keep) = 2 * k)"
    by (intro conjI)
  then show ?thesis by (intro exI)
qed

text \<open>An attribute over two lines, with a bracket inside a string, between two other lines.\<close>

theorem rewriter_only_inserts_guards_witness:
  \<open>rewrite_loop
     [''using X;'', ''  [TestCase(DatabaseType.MySql,'', ''    "a]")]'', ''  void f() {}''] 0 [] 0 =
     Some ([''using X;'', ''  #if MYSQL_TESTS'', ''  [TestCase(DatabaseType.MySql,'',
            ''    "a]")]'', ''  #endif'', ''  void f() {}''], 1) \<and>
   guards_inserted
     [''using X;'', ''  [TestCase(DatabaseType.MySql,'', ''    "a]")]'', ''  void f() {}'']
     [''using X;'', ''  #if MYSQL_TESTS'', ''  [TestCase(DatabaseType.MySql,'',
      ''    "a]")]'', ''  #endif'', ''  void f() {}''] 1\<close>
proof -
  let ?lines = \<open>[''using X;'', ''  [TestCase(DatabaseType.MySql,'', ''    "a]")]'', ''  void f() {}'']\<close>
  let ?outs = \<open>[''using X;'', ''  #if MYSQL_TESTS'', ''  [TestCase(DatabaseType.MySql,'',
      ''    "a]")]'', ''  #endif'', ''  void f() {}'']\<close>
  have e: "rewrite_loop ?lines 0 [] 0 = Some (?outs, 1)"
    by code_simp
  from rewriter_only_inserts_guards [of ?lines]
  obtain new_lines count where r: "rewrite_loop ?lines 0 [] 0 = Some (new_lines, count)"
    and g: "guards_inserted ?lines new_lines count"
    by (elim exE conjE)
  from r have "new_lines = ?outs" and "count = 1"
    by (simp_all only: e option.inject prod.inject)
  with g have "guards_inserted ?lines ?outs 1" by (simp only:)
  with e show ?thesis by (intro conjI)
qed

section \<open>Where the script departs from the specification\<close>

text \<open>
  Line 100 looks for the opening guards of \<^verbatim>\<open>MSSQL_TESTS\<close> and \<^verbatim>\<open>MYSQL_TESTS\<close> only. A file
  that holds one of the two is skipped.
\<close>

lemma skipped_on_mssql_or_mysql_guard:
  "contains ''#if MSSQL_TESTS'' content \<or> contains ''#if MYSQL_TESTS'' content \<Longrightarrow>
     process_file content = Some ((0, False), content)"
  by (simp add: process_file_def)

text \<open>
  Claim C1 fails on the script. The file \<^verbatim>\<open>[TestCase(DatabaseType.Oracle, 1)]\<close> is
  rewritten to three lines, the first being the opening guard of \<^verbatim>\<open>ORACLE_TESTS\<close>. The
  second run on this output, which contains that opening guard, is not skipped: it wraps
  the attribute once more, reports one wrapped attribute and a modified file.
\<close>

theorem oracle_rerun_wraps_again:
  \<open>process_file ''[TestCase(DatabaseType.Oracle, 1)]'' =
     Some ((1, True), ''#if ORACLE_TESTS\<newline>[TestCase(DatabaseType.Oracle, 1)]\<newline>#endif'') \<and>
   contains ''#if ORACLE_TESTS''
     ''#if ORACLE_TESTS\<newline>[TestCase(DatabaseType.Oracle, 1)]\<newline>#endif'' \<and>
   process_file ''#if ORACLE_TESTS\<newline>[TestCase(DatabaseType.Oracle, 1)]\<newline>#endif'' =
     Some ((1, True),
       ''#if ORACLE_TESTS\<newline>#if ORACLE_TESTS\<newline>[TestCase(DatabaseType.Oracle, 1)]\<newline>#endif\<newline>#endif'')\<close>
  by (intro conjI; code_simp)

text \<open>
  Line 67 sets \<open>escape_next\<close> at every backslash inside a regular string, also at a
  backslash that is itself escaped.
\<close>

lemma backslash_in_string_sets_escape_next:
  assumes "j < length line" and "line ! j = backslash"
    and "in_string st" and "\<not> in_verbatim_string st"
  shows "step line j st = Some (Next (j + 1) (st\<lparr>escape_next := True\<rparr>))"
  using assms by (simp add: step_def dq_def backslash_def)

text \<open>
  Claim C2 fails on the script. After the four characters of the string literal made of
  a double quote, two backslashes and a double quote, the scanner is still inside a
  regular string: the closing quote was taken as escaped. So in the attribute of two
  lines below, whose first line holds that literal followed by a string with a closing
  bracket in it, the scanner takes the bracket inside the second string for the end
  of the attribute and returns line 0 instead of line 1, and the rewriter puts the
  closing guard before the last line of the attribute.
\<close>

theorem escaped_backslash_leaves_string_open:
  \<open>scan_line ([dq, backslash, backslash, dq]) 0 init_state =
     Some (Continue (init_state\<lparr>in_string := True\<rparr>)) \<and>
   find_testcase_end
     [''[TestCase(DatabaseType.MySql, "'' @ [backslash, backslash] @ ''", "]",'', ''1)]''] 0 = Some 0 \<and>
   rewrite_loop
     [''[TestCase(DatabaseType.MySql, "'' @ [backslash, backslash] @ ''", "]",'', ''1)]''] 0 [] 0 =
     Some ([''#if MYSQL_TESTS'',
            ''[TestCase(DatabaseType.MySql, "'' @ [backslash, backslash] @ ''", "]",'',
            ''#endif'', ''1)]''], 1)\<close>
  by (intro conjI; code_simp)

end
